theory Spec2Isabelle
  imports Complex_Main
begin

section \<open>Data model of the transcriber (tools/Transcriber/transcribe_audio.py)\<close>

text \<open>
  Times are Python floats in the source. They are modelled as real numbers: the
  arithmetic of the functions below (\<open>min\<close>, \<open>max\<close>, \<open>+\<close>, \<open>-\<close>, \<open>/ 2\<close>, \<open>//\<close>, \<open>%\<close>) is
  taken exactly, so rounding, infinities and NaN are outside the model. Strings are
  lists of characters. The dictionaries of the source have fixed keys and become records;
  \<open>end\<close> and \<open>text\<close> are reserved words of Isabelle, so every field carries a prefix.
\<close>

text \<open>A diarization segment \<open>{"start": float, "end": float, "speaker": str}\<close>.\<close>

record diar_segment =
  d_start :: real
  d_end :: real
  d_speaker :: string

text \<open>The keys of a Whisper segment that the program reads.\<close>

record whisper_segment =
  w_start :: real
  w_end :: real
  w_text :: string

text \<open>
  A Whisper result. The program reads it with \<open>.get("segments", [])\<close> and
  \<open>.get('text', '')\<close>, so either key may be absent.
\<close>

record whisper_result =
  r_text :: "string option"
  r_segments :: "whisper_segment list option"

text \<open>
  A merged (attributed) segment \<open>{"speaker", "start", "end", "text"}\<close>; the groups built by
  \<open>format_transcription_diarized\<close> are dictionaries with the same four keys.
\<close>

record merged_segment =
  m_speaker :: string
  m_start :: real
  m_end :: real
  m_text :: string

text \<open>The only exception the modelled functions could raise: \<open>max()\<close> of an empty dict.\<close>

datatype error = ValueError

section \<open>get_speaker_at_time\<close>

text \<open>
  \<open>speaker_overlaps\<close> is a Python dict, which iterates in insertion order: an association
  list with one entry per key. \<open>dict_get\<close> is \<open>d.get(k, default)\<close>; \<open>dict_set\<close> is
  \<open>d[k] = v\<close>, which keeps the place of an existing key and appends a new one.
\<close>

type_synonym overlaps = "(string \<times> real) list"

fun dict_get :: "overlaps \<Rightarrow> string \<Rightarrow> real \<Rightarrow> real" where
  "dict_get [] k dflt = dflt"
| "dict_get ((k', v') # d) k dflt = (if k' = k then v' else dict_get d k dflt)"

fun dict_set :: "overlaps \<Rightarrow> string \<Rightarrow> real \<Rightarrow> overlaps" where
  "dict_set [] k v = [(k, v)]"
| "dict_set ((k', v') # d) k v = (if k' = k then (k, v) # d else (k', v') # dict_set d k v)"

text \<open>The three lines that compute \<open>overlap_duration\<close> for one segment.\<close>

definition overlap_duration :: "real \<Rightarrow> real \<Rightarrow> diar_segment \<Rightarrow> real" where
  "overlap_duration start end seg =
     (let overlap_start = max start (d_start seg);
          overlap_end = min end (d_end seg)
      in max 0 (overlap_end - overlap_start))"

text \<open>The first loop (lines 195 to 203), threading \<open>speaker_overlaps\<close>.\<close>

fun accumulate_overlaps :: "diar_segment list \<Rightarrow> real \<Rightarrow> real \<Rightarrow> overlaps \<Rightarrow> overlaps" where
  "accumulate_overlaps [] start end speaker_overlaps = speaker_overlaps"
| "accumulate_overlaps (seg # segs) start end speaker_overlaps =
     (if overlap_duration start end seg > 0
      then accumulate_overlaps segs start end
             (dict_set speaker_overlaps (d_speaker seg)
                (dict_get speaker_overlaps (d_speaker seg) 0 + overlap_duration start end seg))
      else accumulate_overlaps segs start end speaker_overlaps)"

text \<open>
  The second loop (lines 211 to 216), threading \<open>closest_speaker\<close> (initially \<open>None\<close>) and
  \<open>closest_distance\<close> (initially \<open>float('inf')\<close>, here \<open>None\<close>: every distance is below it).
\<close>

definition seg_distance :: "real \<Rightarrow> diar_segment \<Rightarrow> real" where
  "seg_distance mid_time seg =
     (let seg_mid = (d_start seg + d_end seg) / 2 in \<bar>mid_time - seg_mid\<bar>)"

fun closest_loop ::
  "diar_segment list \<Rightarrow> real \<Rightarrow> string option \<times> real option \<Rightarrow> string option \<times> real option" where
  "closest_loop [] mid_time st = st"
| "closest_loop (seg # segs) mid_time (closest_speaker, closest_distance) =
     (let distance = seg_distance mid_time seg
      in if (case closest_distance of None \<Rightarrow> True | Some c \<Rightarrow> distance < c)
         then closest_loop segs mid_time (Some (d_speaker seg), Some distance)
         else closest_loop segs mid_time (closest_speaker, closest_distance))"

text \<open>
  \<open>max(speaker_overlaps, key=speaker_overlaps.get)\<close>: the keys are visited in insertion
  order, each with the value stored for it, and a later key replaces the best one only
  when its value is strictly greater. On an empty dict \<open>max\<close> raises \<open>ValueError\<close>.
\<close>

fun max_loop :: "overlaps \<Rightarrow> string \<Rightarrow> real \<Rightarrow> string" where
  "max_loop [] best best_val = best"
| "max_loop ((k, v) # d) best best_val =
     (if v > best_val then max_loop d k v else max_loop d best best_val)"

fun py_max_key :: "overlaps \<Rightarrow> error + string" where
  "py_max_key [] = Inl ValueError"
| "py_max_key ((k, v) # d) = Inr (max_loop d k v)"

text \<open>\<open>closest_speaker or "SPEAKER_00"\<close>: \<open>None\<close> and the empty string are both falsy.\<close>

definition or_default :: "string option \<Rightarrow> string" where
  "or_default closest_speaker =
     (case closest_speaker of
        None \<Rightarrow> ''SPEAKER_00''
      | Some s \<Rightarrow> if s = [] then ''SPEAKER_00'' else s)"

definition get_speaker_at_time :: "diar_segment list \<Rightarrow> real \<Rightarrow> real \<Rightarrow> error + string" where
  "get_speaker_at_time diarization_segments start end =
     (if diarization_segments = [] then Inr ''SPEAKER_00''
      else
        let speaker_overlaps = accumulate_overlaps diarization_segments start end []
        in if speaker_overlaps = []
           then
             (let mid_time = (start + end) / 2;
                  (closest_speaker, closest_distance) =
                     closest_loop diarization_segments mid_time (None, None)
              in Inr (or_default closest_speaker))
           else py_max_key speaker_overlaps)"

section \<open>merge_transcription_with_diarization\<close>

text \<open>
  \<open>str.strip()\<close> removes leading and trailing whitespace. Characters are the 8-bit
  characters of Isabelle, read as the code points below 256; among those, Python's
  whitespace is 9 to 13, 28 to 32, 133 and 160.
\<close>

definition is_space :: "char \<Rightarrow> bool" where
  "is_space c = (of_char c \<in> set [9, 10, 11, 12, 13, 28, 29, 30, 31, 32, 133, 160 :: nat])"

definition strip :: "string \<Rightarrow> string" where
  "strip s = rev (dropWhile is_space (rev (dropWhile is_space s)))"

text \<open>
  The loop of \<open>merge_transcription_with_diarization\<close>, threading \<open>merged\<close>; an exception of
  the resolver would leave the loop.
\<close>

fun merge_loop ::
  "whisper_segment list \<Rightarrow> diar_segment list \<Rightarrow> merged_segment list \<Rightarrow> error + merged_segment list" where
  "merge_loop [] diarization_segments merged = Inr merged"
| "merge_loop (segment # rest) diarization_segments merged =
     (case get_speaker_at_time diarization_segments (w_start segment) (w_end segment) of
        Inl e \<Rightarrow> Inl e
      | Inr speaker \<Rightarrow>
          merge_loop rest diarization_segments
            (merged @ [\<lparr>m_speaker = speaker, m_start = w_start segment,
                        m_end = w_end segment, m_text = strip (w_text segment)\<rparr>]))"

text \<open>\<open>whisper_result.get("segments", [])\<close>.\<close>

definition get_segments :: "whisper_result \<Rightarrow> whisper_segment list" where
  "get_segments whisper_result =
     (case r_segments whisper_result of None \<Rightarrow> [] | Some segs \<Rightarrow> segs)"

definition merge_transcription_with_diarization ::
  "whisper_result \<Rightarrow> diar_segment list \<Rightarrow> error + merged_segment list" where
  "merge_transcription_with_diarization whisper_result diarization_segments =
     merge_loop (get_segments whisper_result) diarization_segments []"

section \<open>format_timestamp\<close>

text \<open>
  Python's \<open>//\<close> and \<open>%\<close> on floats with a positive divisor, and \<open>int()\<close>, which truncates
  towards zero.
\<close>

definition py_floordiv :: "real \<Rightarrow> real \<Rightarrow> real" where
  "py_floordiv x y = of_int \<lfloor>x / y\<rfloor>"

definition py_mod :: "real \<Rightarrow> real \<Rightarrow> real" where
  "py_mod x y = x - y * of_int \<lfloor>x / y\<rfloor>"

definition py_int :: "real \<Rightarrow> int" where
  "py_int x = (if x < 0 then \<lceil>x\<rceil> else \<lfloor>x\<rfloor>)"

text \<open>Decimal rendering of integers: \<open>{n}\<close> is \<open>str_int\<close>, \<open>{n:02d}\<close> is \<open>fmt_02d\<close>.\<close>

definition digit_char :: "nat \<Rightarrow> char" where
  "digit_char n = ''0123456789'' ! n"

fun dec_str :: "nat \<Rightarrow> string" where
  "dec_str n = (if n < 10 then [digit_char n] else dec_str (n div 10) @ [digit_char (n mod 10)])"

declare dec_str.simps [simp del]

definition zfill :: "nat \<Rightarrow> string \<Rightarrow> string" where
  "zfill width s = replicate (width - length s) (CHR ''0'') @ s"

definition str_int :: "int \<Rightarrow> string" where
  "str_int i = (if i < 0 then CHR ''-'' # dec_str (nat (- i)) else dec_str (nat i))"

definition fmt_02d :: "int \<Rightarrow> string" where
  "fmt_02d i = (if i < 0 then CHR ''-'' # zfill 1 (dec_str (nat (- i))) else zfill 2 (dec_str (nat i)))"

definition format_timestamp :: "real \<Rightarrow> string" where
  "format_timestamp seconds =
     (let hours = py_int (py_floordiv seconds 3600);
          minutes = py_int (py_floordiv (py_mod seconds 3600) 60);
          secs = py_int (py_mod seconds 60)
      in if hours > 0
         then str_int hours @ '':'' @ fmt_02d minutes @ '':'' @ fmt_02d secs
         else str_int minutes @ '':'' @ fmt_02d secs)"

section \<open>format_transcription_plain\<close>

text \<open>
  \<open>re.sub(r'([.!?])\s+(?=[A-Z"\'])', r'\1\n\n', text)\<close>: a terminal punctuation mark, the
  whole run of whitespace after it (at least one character), and then, not consumed, an
  ASCII capital or a quote. The run is replaced by two newlines and the scan goes on at
  the character after the run.
\<close>

definition newline :: char where
  "newline = CHR 0x0A"

definition is_sentence_end :: "char \<Rightarrow> bool" where
  "is_sentence_end c = (c \<in> set ''.!?'')"

definition is_sentence_start :: "char \<Rightarrow> bool" where
  "is_sentence_start c =
     ((65 \<le> (of_char c :: nat) \<and> (of_char c :: nat) \<le> 90) \<or> c = CHR 0x22 \<or> c = CHR 0x27)"

function format_transcription_plain :: "string \<Rightarrow> string" where
  "format_transcription_plain [] = []"
| "format_transcription_plain (c # cs) =
     (if is_sentence_end c \<and> takeWhile is_space cs \<noteq> []
         \<and> (case dropWhile is_space cs of [] \<Rightarrow> False | n # _ \<Rightarrow> is_sentence_start n)
      then c # newline # newline # format_transcription_plain (dropWhile is_space cs)
      else c # format_transcription_plain cs)"
  by pat_completeness auto
termination
  by (relation "measure length") (auto simp: less_Suc_eq_le length_dropWhile_le)

section \<open>format_transcription_diarized\<close>

text \<open>
  The grouping loop (lines 355 to 378), threading \<open>grouped\<close> and \<open>current_group\<close>, and the
  final \<open>if current_group: grouped.append(current_group)\<close>.
\<close>

definition new_group :: "merged_segment \<Rightarrow> merged_segment" where
  "new_group seg =
     \<lparr>m_speaker = m_speaker seg, m_start = m_start seg, m_end = m_end seg, m_text = m_text seg\<rparr>"

fun group_loop ::
  "merged_segment list \<Rightarrow> merged_segment list \<Rightarrow> merged_segment option
     \<Rightarrow> merged_segment list \<times> merged_segment option" where
  "group_loop [] grouped current_group = (grouped, current_group)"
| "group_loop (seg # segs) grouped None = group_loop segs grouped (Some (new_group seg))"
| "group_loop (seg # segs) grouped (Some g) =
     (if m_speaker seg = m_speaker g
      then group_loop segs grouped
             (Some (g\<lparr>m_end := m_end seg, m_text := m_text g @ '' '' @ m_text seg\<rparr>))
      else group_loop segs (grouped @ [g]) (Some (new_group seg)))"

definition grouped_of :: "merged_segment list \<Rightarrow> merged_segment list" where
  "grouped_of merged_segments =
     (case group_loop merged_segments [] None of
        (grouped, None) \<Rightarrow> grouped
      | (grouped, Some g) \<Rightarrow> grouped @ [g])"

text \<open>\<open>sep.join(lines)\<close>.\<close>

fun py_join :: "string \<Rightarrow> string list \<Rightarrow> string" where
  "py_join sep [] = []"
| "py_join sep [x] = x"
| "py_join sep (x # y # xs) = x @ sep @ py_join sep (y # xs)"

definition format_group :: "merged_segment \<Rightarrow> string" where
  "format_group g =
     (let timestamp = format_timestamp (m_start g)
      in m_speaker g @ '' ['' @ timestamp @ '']: '' @ m_text g)"

definition format_transcription_diarized :: "merged_segment list \<Rightarrow> string" where
  "format_transcription_diarized merged_segments =
     (if merged_segments = [] then []
      else py_join [newline, newline] (map format_group (grouped_of merged_segments)))"

section \<open>save_outputs and main\<close>

text \<open>
  \<open>Path(audio_file_path)\<close> is given by its parts: \<open>stem\<close> and \<open>suffix\<close> make the \<open>name\<close>,
  \<open>parent\<close> is the directory. The written file is returned as a value: its directory, its
  name and its content. The date line comes from the clock, a parameter here.
\<close>

record audio_path =
  p_parent :: string
  p_stem :: string
  p_suffix :: string

record output_file =
  f_dir :: string
  f_name :: string
  f_content :: string

text \<open>The \<open>transcription\<close> argument is a dict (a Whisper result) or anything else, read by \<open>str()\<close>.\<close>

datatype transcription = Dict whisper_result | Text string

definition save_outputs ::
  "audio_path \<Rightarrow> string \<Rightarrow> transcription \<Rightarrow> merged_segment list option \<Rightarrow> output_file" where
  "save_outputs audio_path now transcription diarized_segments =
     (let base_name = p_stem audio_path;
          output_dir = p_parent audio_path;
          truthy = (case diarized_segments of None \<Rightarrow> False | Some segs \<Rightarrow> segs \<noteq> []);
          segs = (case diarized_segments of None \<Rightarrow> [] | Some segs \<Rightarrow> segs);
          (formatted_content, suffix) =
            (if truthy then (format_transcription_diarized segs, ''_diarized'')
             else
               (let text = (case transcription of
                              Dict d \<Rightarrow> strip (case r_text d of None \<Rightarrow> [] | Some t \<Rightarrow> t)
                            | Text t \<Rightarrow> strip t)
                in (format_transcription_plain text, ''_transcription'')))
      in \<lparr>f_dir = output_dir,
          f_name = base_name @ suffix @ ''.txt'',
          f_content =
            ''TRANSCRIPTION'' @ [newline, newline]
            @ ''Audio File: '' @ p_stem audio_path @ p_suffix audio_path @ [newline]
            @ ''Date: '' @ now @ [newline]
            @ (if truthy
               then ''Speakers: '' @ dec_str (length (remdups (map m_speaker segs))) @ [newline]
               else [])
            @ [newline] @ ''---'' @ [newline, newline]
            @ formatted_content\<rparr>)"

text \<open>
  \<open>main\<close>. The command line and everything outside the program are given: whether the
  file exists, the token read by \<open>get_hf_token\<close>, what \<open>run_diarization\<close> returns (\<open>None\<close>
  when it ends the process with \<open>sys.exit(1)\<close>), what \<open>transcribe_audio\<close> returns (\<open>None\<close>
  when it raises), and the clock. The outcome is \<open>sys.exit(1)\<close> or the written file;
  writing the file is taken to succeed.
\<close>

record cli_args =
  a_audio_file :: audio_path
  a_diarize :: bool

record world =
  file_exists :: bool
  hf_token :: "string option"
  diarization :: "diar_segment list option"
  whisper :: "whisper_result option"
  clock :: string

datatype outcome = Exit1 | Saved output_file

definition lower_char :: "char \<Rightarrow> char" where
  "lower_char c =
     (let n = (of_char c :: nat)
      in if (65 \<le> n \<and> n \<le> 90) \<or> (192 \<le> n \<and> n \<le> 222 \<and> n \<noteq> 215) then char_of (n + 32) else c)"

definition SUPPORTED_FORMATS :: "string list" where
  "SUPPORTED_FORMATS =
     [''.mp3'', ''.mp4'', ''.mpeg'', ''.mpga'', ''.m4a'', ''.wav'', ''.webm'', ''.ogg'', ''.flac'']"

definition main :: "cli_args \<Rightarrow> world \<Rightarrow> outcome" where
  "main args w =
     (let audio_file_path = a_audio_file args;
          enable_diarization = a_diarize args
      in if \<not> file_exists w then Exit1
         else if map lower_char (p_suffix audio_file_path) \<notin> set SUPPORTED_FORMATS then Exit1
         else
           (case (if enable_diarization
                  then (case hf_token w of
                          None \<Rightarrow> Inl Exit1
                        | Some t \<Rightarrow> if t = [] then Inl Exit1
                                    else (case diarization w of
                                            None \<Rightarrow> Inl Exit1
                                          | Some segs \<Rightarrow> Inr (Some segs)))
                  else Inr None) of
              Inl exit \<Rightarrow> exit
            | Inr diarization_segments \<Rightarrow>
                (case whisper w of
                   None \<Rightarrow> Exit1
                 | Some whisper_result \<Rightarrow>
                     (if (case diarization_segments of None \<Rightarrow> False | Some segs \<Rightarrow> segs \<noteq> [])
                      then (case merge_transcription_with_diarization whisper_result
                                   (case diarization_segments of None \<Rightarrow> [] | Some segs \<Rightarrow> segs) of
                              Inl e \<Rightarrow> Exit1
                            | Inr merged \<Rightarrow>
                                Saved (save_outputs audio_file_path (clock w) (Dict whisper_result)
                                         (Some merged)))
                      else Saved (save_outputs audio_file_path (clock w) (Dict whisper_result)
                                    None)))))"

section \<open>Notions of the specification\<close>

text \<open>
  The accumulated overlap of one speaker, as the specification words it: the sum of the
  overlaps of all segments carrying that label.
\<close>

definition speaker_total :: "diar_segment list \<Rightarrow> real \<Rightarrow> real \<Rightarrow> string \<Rightarrow> real" where
  "speaker_total segs start end sp =
     sum_list (map (overlap_duration start end) (filter (\<lambda>seg. d_speaker seg = sp) segs))"


text \<open>Adding a key at the end of a list of keys unless it is there already.\<close>

definition add_key :: "string \<Rightarrow> string list \<Rightarrow> string list" where
  "add_key k ks = (if k \<in> set ks then ks else ks @ [k])"

text \<open>The inputs of the examples given in the specification, and of two more.\<close>

definition overlap_example :: "diar_segment list" where
  "overlap_example =
     [\<lparr>d_start = 0, d_end = 5, d_speaker = ''A''\<rparr>, \<lparr>d_start = 5, d_end = 10, d_speaker = ''B''\<rparr>]"




text \<open>
  A turn as the specification words it: the speaker and the start of the first segment
  of a run, the end of its last segment, and the texts joined by single spaces.
\<close>

definition turn_of :: "merged_segment list \<Rightarrow> merged_segment" where
  "turn_of run =
     \<lparr>m_speaker = m_speaker (hd run), m_start = m_start (hd run), m_end = m_end (last run),
      m_text = py_join '' '' (map m_text run)\<rparr>"

text \<open>
  The runs of a sequence of segments, read from the left: \<open>runs_from cur xs\<close> extends the
  run \<open>cur\<close> while the speaker stays the same and closes it when the speaker changes.
\<close>

fun runs_from :: "merged_segment list \<Rightarrow> merged_segment list \<Rightarrow> merged_segment list list" where
  "runs_from cur [] = [cur]"
| "runs_from cur (x # xs) =
     (if m_speaker x = m_speaker (hd cur) then runs_from (cur @ [x]) xs
      else cur # runs_from [x] xs)"

fun runs :: "merged_segment list \<Rightarrow> merged_segment list list" where
  "runs [] = []"
| "runs (x # xs) = runs_from [x] xs"

text \<open>A run has one speaker; neighbouring runs have different speakers.\<close>

definition same_speaker :: "merged_segment list \<Rightarrow> bool" where
  "same_speaker run = (\<forall>x \<in> set run. m_speaker x = m_speaker (hd run))"

fun adjacent_differ :: "merged_segment list list \<Rightarrow> bool" where
  "adjacent_differ (r # r' # rs) =
     (m_speaker (last r) \<noteq> m_speaker (hd r') \<and> adjacent_differ (r' # rs))"
| "adjacent_differ rs = True"



definition turn_example :: "merged_segment list" where
  "turn_example =
     [\<lparr>m_speaker = ''A'', m_start = 0, m_end = 2, m_text = ''hi''\<rparr>,
      \<lparr>m_speaker = ''A'', m_start = 2, m_end = 4, m_text = ''there''\<rparr>,
      \<lparr>m_speaker = ''B'', m_start = 4, m_end = 6, m_text = ''bye''\<rparr>]"

definition whisper_example :: whisper_result where
  "whisper_example =
     \<lparr>r_text = Some '' Hello there. Bye.'',
      r_segments = Some [\<lparr>w_start = 3, w_end = 7, w_text = '' Hello there. ''\<rparr>,
                         \<lparr>w_start = 7, w_end = 8, w_text = ''Bye.''\<rparr>]\<rparr>"

text \<open>
  Two runs with \<open>--diarize\<close> on a readable, supported file with a configured token: one
  where the diarization finds no speaker segment, one where Whisper finds no speech.
\<close>

definition diarize_args :: cli_args where
  "diarize_args =
     \<lparr>a_audio_file = \<lparr>p_parent = ''recordings'', p_stem = ''meeting'', p_suffix = ''.mp3''\<rparr>,
      a_diarize = True\<rparr>"

definition no_speaker_world :: world where
  "no_speaker_world =
     \<lparr>file_exists = True, hf_token = Some ''hf_token'', diarization = Some [],
      whisper = Some \<lparr>r_text = Some '' Hello there. Bye.'',
                      r_segments = Some [\<lparr>w_start = 0, w_end = 2, w_text = '' Hello there. Bye.''\<rparr>]\<rparr>,
      clock = ''2025-01-01 12:00:00''\<rparr>"

definition no_speech_world :: world where
  "no_speech_world =
     \<lparr>file_exists = True, hf_token = Some ''hf_token'', diarization = Some overlap_example,
      whisper = Some \<lparr>r_text = Some [], r_segments = Some []\<rparr>,
      clock = ''2025-01-01 12:00:00''\<rparr>"

section \<open>Lemmas about the overlap dictionary\<close>

lemma overlap_duration_nonneg: "0 \<le> overlap_duration start end seg"
  by (simp add: overlap_duration_def Let_def)

lemma speaker_total_nonneg: "0 \<le> speaker_total segs start end sp"
  unfolding speaker_total_def by (induction segs) (auto simp: overlap_duration_nonneg)

lemma dict_get_set:
  "dict_get (dict_set d k v) k' z = (if k' = k then v else dict_get d k' z)"
  by (induction d) auto

lemma keys_dict_set: "map fst (dict_set d k v) = add_key k (map fst d)"
  by (induction d) (fastforce simp: add_key_def)+

lemma accumulate_get:
  "dict_get (accumulate_overlaps segs start end d) k 0 =
     dict_get d k 0 + speaker_total segs start end k"
proof (induction segs arbitrary: d)
  case Nil
  then show ?case by (simp add: speaker_total_def)
next
  case (Cons seg segs)
  have z: "overlap_duration start end seg = 0" if "\<not> overlap_duration start end seg > 0"
    using that overlap_duration_nonneg [of start "end" seg] by simp
  show ?case
    using Cons.IH z by (auto simp: dict_get_set speaker_total_def)
qed

lemma accumulate_keys:
  "map fst (accumulate_overlaps segs start end d) =
     fold add_key (map d_speaker (filter (\<lambda>seg. overlap_duration start end seg > 0) segs)) (map fst d)"
  by (induction segs arbitrary: d) (auto simp: keys_dict_set)

lemma distinct_add_key: "distinct ks \<Longrightarrow> distinct (add_key k ks)"
  by (simp add: add_key_def)

lemma distinct_fold_add_key: "distinct ks \<Longrightarrow> distinct (fold add_key xs ks)"
  by (induction xs arbitrary: ks) (auto simp: distinct_add_key)

lemma dict_get_distinct:
  "distinct (map fst d) \<Longrightarrow> (k, v) \<in> set d \<Longrightarrow> dict_get d k z = v"
  by (induction d) (auto simp: rev_image_eqI)

lemma accumulate_items:
  assumes "(k, v) \<in> set (accumulate_overlaps segs start end [])"
  shows "v = speaker_total segs start end k"
proof -
  have "distinct (map fst (accumulate_overlaps segs start end []))"
    by (simp add: accumulate_keys distinct_fold_add_key)
  from dict_get_distinct [OF this assms, of 0] show ?thesis
    by (simp add: accumulate_get)
qed

lemma find_snoc:
  "find P (ks @ [x]) =
     (case find P ks of Some y \<Rightarrow> Some y | None \<Rightarrow> if P x then Some x else None)"
  by (induction ks) auto

lemma find_add_key:
  "find P (add_key x ks) =
     (case find P ks of Some y \<Rightarrow> Some y | None \<Rightarrow> if P x then Some x else None)"
proof (cases "x \<in> set ks")
  case True
  then have "P x \<Longrightarrow> find P ks \<noteq> None"
    by (auto simp: find_None_iff)
  then show ?thesis using True
    by (auto simp: add_key_def split: option.splits)
next
  case False
  then show ?thesis by (simp add: add_key_def find_snoc)
qed

lemma find_fold_add_key:
  "find P (fold add_key xs ks) = (case find P ks of Some y \<Rightarrow> Some y | None \<Rightarrow> find P xs)"
proof (induction xs arbitrary: ks)
  case Nil
  then show ?case by (simp split: option.splits)
next
  case (Cons x xs)
  show ?case
    by (simp add: Cons.IH find_add_key split: option.splits)
qed

lemma find_map_filter:
  "find P (map f (filter Q xs)) = map_option f (find (\<lambda>x. Q x \<and> P (f x)) xs)"
  by (induction xs) auto

lemma add_key_not_Nil: "add_key k ks \<noteq> []"
  by (cases ks) (simp_all add: add_key_def)

lemma fold_add_key_Nil: "fold add_key xs ks = [] \<longleftrightarrow> xs = [] \<and> ks = []"
  by (induction xs arbitrary: ks) (simp_all add: add_key_not_Nil)

lemma accumulate_Nil_iff:
  "accumulate_overlaps segs start end [] = [] \<longleftrightarrow>
     (\<forall>seg \<in> set segs. \<not> overlap_duration start end seg > 0)"
proof -
  have "accumulate_overlaps segs start end [] = [] \<longleftrightarrow>
        map fst (accumulate_overlaps segs start end []) = []"
    by (simp only: map_is_Nil_conv)
  also have "\<dots> \<longleftrightarrow> filter (\<lambda>seg. overlap_duration start end seg > 0) segs = []"
    unfolding accumulate_keys fold_add_key_Nil by simp
  finally show ?thesis by (simp add: filter_empty_conv)
qed

lemma max_loop_first_max:
  "\<exists>pre w post. (best, best_val) # d = pre @ (max_loop d best best_val, w) # post
      \<and> (\<forall>(k, v) \<in> set pre. v < w) \<and> (\<forall>(k, v) \<in> set post. v \<le> w)"
proof (induction d arbitrary: best best_val)
  case Nil
  show ?case by (rule exI [of _ "[]"]) simp
next
  case (Cons kv d)
  obtain k v where kv: "kv = (k, v)" by (cases kv)
  show ?case
  proof (cases "v > best_val")
    case True
    then have m: "max_loop (kv # d) best best_val = max_loop d k v"
      by (simp add: kv)
    from Cons.IH [of k v] obtain pre w post where
      s: "(k, v) # d = pre @ (max_loop d k v, w) # post"
      and p: "\<forall>(k, v) \<in> set pre. v < w" and q: "\<forall>(k, v) \<in> set post. v \<le> w" by blast
    have "v \<le> w" using s p by (cases pre) auto
    then have "best_val < w" using True by simp
    then have "(best, best_val) # kv # d = ((best, best_val) # pre) @ (max_loop d k v, w) # post
       \<and> (\<forall>(k, v) \<in> set ((best, best_val) # pre). v < w) \<and> (\<forall>(k, v) \<in> set post. v \<le> w)"
      using s p q kv by simp
    then show ?thesis unfolding m by blast
  next
    case False
    then have m: "max_loop (kv # d) best best_val = max_loop d best best_val"
      by (simp add: kv)
    from Cons.IH [of best best_val] obtain pre w post where
      s: "(best, best_val) # d = pre @ (max_loop d best best_val, w) # post"
      and p: "\<forall>(k, v) \<in> set pre. v < w" and q: "\<forall>(k, v) \<in> set post. v \<le> w" by blast
    show ?thesis
    proof (cases pre)
      case Nil
      from s [unfolded Nil append_Nil] have e: "max_loop d best best_val = best" "w = best_val" "post = d"
        by (metis list.inject prod.inject)+
      have "(best, best_val) # kv # d = [] @ (max_loop d best best_val, w) # (kv # post)
         \<and> (\<forall>(k, v) \<in> set []. v < w) \<and> (\<forall>(k, v) \<in> set (kv # post). v \<le> w)"
        unfolding e using q False kv by (simp add: e)
      then show ?thesis unfolding m by blast
    next
      case (Cons a pre')
      then have "best_val < w" using s p by auto
      then have "(best, best_val) # kv # d
           = ((best, best_val) # kv # pre') @ (max_loop d best best_val, w) # post
         \<and> (\<forall>(k, v) \<in> set ((best, best_val) # kv # pre'). v < w)
         \<and> (\<forall>(k, v) \<in> set post. v \<le> w)"
        using s p q False kv Cons by auto
      then show ?thesis unfolding m by blast
    qed
  qed
qed

section \<open>Lemmas about the two selections of the resolver\<close>

lemma dict_get_absent: "k \<notin> fst ` set d \<Longrightarrow> dict_get d k z = z"
  by (induction d) auto

lemma find_first:
  "P y \<Longrightarrow> \<forall>x \<in> set xs. \<not> P x \<Longrightarrow> find P (xs @ y # ys) = Some y"
  by (induction xs) auto

lemma py_max_key_first_max:
  assumes "d \<noteq> []"
  shows "\<exists>pre r w post. py_max_key d = Inr r \<and> d = pre @ (r, w) # post
      \<and> (\<forall>(k, v) \<in> set pre. v < w) \<and> (\<forall>(k, v) \<in> set post. v \<le> w)"
proof -
  from assms obtain k v d' where d: "d = (k, v) # d'"
    by (cases d) auto
  from max_loop_first_max [of k v d'] show ?thesis
    unfolding d by auto
qed

lemma greatest_overlap_first:
  assumes pos: "\<exists>seg \<in> set segs. overlap_duration start end seg > 0"
  shows "\<exists>i r. i < length segs \<and> get_speaker_at_time segs start end = Inr r
      \<and> d_speaker (segs ! i) = r \<and> overlap_duration start end (segs ! i) > 0
      \<and> (\<forall>sp. speaker_total segs start end sp \<le> speaker_total segs start end r)
      \<and> (\<forall>j < i. overlap_duration start end (segs ! j) > 0 \<longrightarrow>
             speaker_total segs start end (d_speaker (segs ! j)) < speaker_total segs start end r)"
proof -
  define d where "d = accumulate_overlaps segs start end []"
  define T where "T = speaker_total segs start end"
  have ne: "d \<noteq> []" and segs_ne: "segs \<noteq> []"
    using pos by (auto simp: d_def accumulate_Nil_iff)
  then have res: "get_speaker_at_time segs start end = py_max_key d"
    by (simp add: get_speaker_at_time_def d_def)
  from py_max_key_first_max [OF ne] obtain pre r w post where
    r: "py_max_key d = Inr r" and s: "d = pre @ (r, w) # post"
    and p: "\<forall>(k, v) \<in> set pre. v < w" and q: "\<forall>(k, v) \<in> set post. v \<le> w"
    by blast
  have items: "v = T k" if "(k, v) \<in> set d" for k v
    using that accumulate_items unfolding d_def T_def by blast
  have w: "w = T r" using items [of r w] s by simp
  have get: "T sp = dict_get d sp 0" for sp
    unfolding T_def d_def by (simp add: accumulate_get)
  have A: "T sp \<le> T r" for sp
  proof (cases "sp \<in> fst ` set d")
    case True
    then obtain v where v: "(sp, v) \<in> set d" by auto
    then have "v \<le> w" using s p q by auto
    then show ?thesis using items [OF v] w by simp
  next
    case False
    then have "T sp = 0" by (simp add: get dict_get_absent)
    then show ?thesis using speaker_total_nonneg [of segs start "end" r] by (simp add: T_def)
  qed
  have "\<forall>k \<in> set (map fst pre). \<not> T k = T r"
  proof
    fix k assume "k \<in> set (map fst pre)"
    then obtain v where v: "(k, v) \<in> set pre" by auto
    then have "v < w" using p by auto
    moreover have "v = T k" using items [of k v] v s by simp
    ultimately show "\<not> T k = T r" using w by simp
  qed
  then have "find (\<lambda>k. T k = T r) (map fst pre @ r # map fst post) = Some r"
    by (intro find_first) simp_all
  then have "find (\<lambda>k. T k = T r) (map fst d) = Some r"
    by (simp add: s)
  then have "map_option d_speaker
      (find (\<lambda>x. overlap_duration start end x > 0 \<and> T (d_speaker x) = T r) segs) = Some r"
    unfolding d_def accumulate_keys find_fold_add_key find_map_filter by simp
  then obtain seg where
    f: "find (\<lambda>x. overlap_duration start end x > 0 \<and> T (d_speaker x) = T r) segs = Some seg"
    and sp: "d_speaker seg = r" by auto
  from f obtain i where i: "i < length segs" "seg = segs ! i"
    "overlap_duration start end (segs ! i) > 0"
    and first: "\<forall>j < i. \<not> (overlap_duration start end (segs ! j) > 0 \<and> T (d_speaker (segs ! j)) = T r)"
    unfolding find_Some_iff by blast
  have "\<forall>j < i. overlap_duration start end (segs ! j) > 0 \<longrightarrow> T (d_speaker (segs ! j)) < T r"
    using first A by (meson less_le)
  then have "i < length segs \<and> get_speaker_at_time segs start end = Inr r
      \<and> d_speaker (segs ! i) = r \<and> overlap_duration start end (segs ! i) > 0
      \<and> (\<forall>sp. T sp \<le> T r)
      \<and> (\<forall>j < i. overlap_duration start end (segs ! j) > 0 \<longrightarrow>
             T (d_speaker (segs ! j)) < T r)"
    using i sp res r A by simp
  then show ?thesis
    unfolding T_def by (intro exI [of _ i], intro exI [of _ r])
qed

lemma closest_loop_first_min:
  "\<exists>pre x post. seg0 # segs = pre @ x # post
     \<and> closest_loop segs mid (Some (d_speaker seg0), Some (seg_distance mid seg0))
         = (Some (d_speaker x), Some (seg_distance mid x))
     \<and> (\<forall>y \<in> set pre. seg_distance mid x < seg_distance mid y)
     \<and> (\<forall>y \<in> set post. seg_distance mid x \<le> seg_distance mid y)"
proof (induction segs arbitrary: seg0)
  case Nil
  show ?case by (rule exI [of _ "[]"]) simp
next
  case (Cons a segs)
  show ?case
  proof (cases "seg_distance mid a < seg_distance mid seg0")
    case True
    then have m: "closest_loop (a # segs) mid (Some (d_speaker seg0), Some (seg_distance mid seg0))
        = closest_loop segs mid (Some (d_speaker a), Some (seg_distance mid a))"
      by simp
    from Cons.IH [of a] obtain pre x post where
      s: "a # segs = pre @ x # post"
      and c: "closest_loop segs mid (Some (d_speaker a), Some (seg_distance mid a))
         = (Some (d_speaker x), Some (seg_distance mid x))"
      and p: "\<forall>y \<in> set pre. seg_distance mid x < seg_distance mid y"
      and q: "\<forall>y \<in> set post. seg_distance mid x \<le> seg_distance mid y" by blast
    have "seg_distance mid x \<le> seg_distance mid a" using s p by (cases pre) auto
    then have "seg_distance mid x < seg_distance mid seg0" using True by simp
    then have "seg0 # a # segs = (seg0 # pre) @ x # post
       \<and> (\<forall>y \<in> set (seg0 # pre). seg_distance mid x < seg_distance mid y)"
      using s p by simp
    then show ?thesis unfolding m using c q by blast
  next
    case False
    then have m: "closest_loop (a # segs) mid (Some (d_speaker seg0), Some (seg_distance mid seg0))
        = closest_loop segs mid (Some (d_speaker seg0), Some (seg_distance mid seg0))"
      by simp
    from Cons.IH [of seg0] obtain pre x post where
      s: "seg0 # segs = pre @ x # post"
      and c: "closest_loop segs mid (Some (d_speaker seg0), Some (seg_distance mid seg0))
         = (Some (d_speaker x), Some (seg_distance mid x))"
      and p: "\<forall>y \<in> set pre. seg_distance mid x < seg_distance mid y"
      and q: "\<forall>y \<in> set post. seg_distance mid x \<le> seg_distance mid y" by blast
    show ?thesis
    proof (cases pre)
      case Nil
      from s [unfolded Nil append_Nil] have e: "x = seg0" "post = segs"
        by (metis list.inject)+
      have "seg0 # a # segs = [] @ x # (a # post)
         \<and> (\<forall>y \<in> set []. seg_distance mid x < seg_distance mid y)
         \<and> (\<forall>y \<in> set (a # post). seg_distance mid x \<le> seg_distance mid y)"
        using q False by (simp add: e)
      then show ?thesis unfolding m using c by blast
    next
      case (Cons b pre')
      then have b: "b = seg0" "segs = pre' @ x # post" using s by simp_all
      have "seg_distance mid x < seg_distance mid seg0" using p Cons b by simp
      then have "seg0 # a # segs = (seg0 # a # pre') @ x # post
         \<and> (\<forall>y \<in> set (seg0 # a # pre'). seg_distance mid x < seg_distance mid y)"
        using p False Cons b by auto
      then show ?thesis unfolding m using c q by blast
    qed
  qed
qed

lemma nearest_first:
  assumes ne: "segs \<noteq> []"
    and none: "\<not> (\<exists>seg \<in> set segs. overlap_duration start end seg > 0)"
  shows "\<exists>i < length segs.
       get_speaker_at_time segs start end
         = Inr (if d_speaker (segs ! i) = [] then ''SPEAKER_00'' else d_speaker (segs ! i))
     \<and> (\<forall>j < length segs. seg_distance ((start + end) / 2) (segs ! i)
                              \<le> seg_distance ((start + end) / 2) (segs ! j))
     \<and> (\<forall>j < i. seg_distance ((start + end) / 2) (segs ! i)
                     < seg_distance ((start + end) / 2) (segs ! j))"
proof -
  define mid where "mid = (start + end) / 2"
  from ne obtain seg0 rest where segs: "segs = seg0 # rest" by (cases segs) auto
  from closest_loop_first_min [of seg0 rest mid] obtain pre x post where
    s: "segs = pre @ x # post"
    and c: "closest_loop rest mid (Some (d_speaker seg0), Some (seg_distance mid seg0))
         = (Some (d_speaker x), Some (seg_distance mid x))"
    and p: "\<forall>y \<in> set pre. seg_distance mid x < seg_distance mid y"
    and q: "\<forall>y \<in> set post. seg_distance mid x \<le> seg_distance mid y"
    unfolding segs by blast
  have "closest_loop segs mid (None, None) = (Some (d_speaker x), Some (seg_distance mid x))"
    using c by (simp add: segs)
  moreover have "accumulate_overlaps segs start end [] = []"
    using none by (simp add: accumulate_Nil_iff)
  ultimately have res: "get_speaker_at_time segs start end
      = Inr (if d_speaker x = [] then ''SPEAKER_00'' else d_speaker x)"
    using ne by (simp add: get_speaker_at_time_def mid_def or_default_def)
  have x: "segs ! length pre = x" and l: "length pre < length segs"
    by (simp_all add: s)
  have le: "seg_distance mid x \<le> seg_distance mid (segs ! j)" if "j < length segs" for j
  proof -
    have "segs ! j \<in> set pre \<or> segs ! j = x \<or> segs ! j \<in> set post"
      using that nth_mem [OF that] by (auto simp: s)
    then show ?thesis using p q by auto
  qed
  have lt: "seg_distance mid x < seg_distance mid (segs ! j)" if "j < length pre" for j
    using that p by (simp add: s nth_append)
  show ?thesis
    using res x l le lt unfolding mid_def by (intro exI [of _ "length pre"]) simp
qed

lemma resolver_returns: "\<exists>l. get_speaker_at_time segs start end = Inr l"
proof (cases "accumulate_overlaps segs start end [] = []")
  case True
  then show ?thesis
    by (simp add: get_speaker_at_time_def Let_def split: prod.splits)
next
  case False
  then obtain k v d where "accumulate_overlaps segs start end [] = (k, v) # d"
    by (cases "accumulate_overlaps segs start end []") auto
  then show ?thesis
    by (simp add: get_speaker_at_time_def)
qed

lemma resolver_label_origin:
  assumes "get_speaker_at_time segs start end = Inr l"
  shows "l = ''SPEAKER_00'' \<or> l \<in> d_speaker ` set segs"
proof (cases "segs = []")
  case True
  then show ?thesis using assms by (simp add: get_speaker_at_time_def)
next
  case False
  show ?thesis
  proof (cases "\<exists>seg \<in> set segs. overlap_duration start end seg > 0")
    case True
    from greatest_overlap_first [OF True] assms show ?thesis by force
  next
    case False
    from nearest_first [OF \<open>segs \<noteq> []\<close> False] assms show ?thesis
      by (force split: if_splits)
  qed
qed

section \<open>Lemmas about format_timestamp\<close>

text \<open>The decimal rendering is unpadded: a positive number has no leading zero.\<close>

lemma digit_char_zero_iff: "n < 10 \<Longrightarrow> digit_char n = CHR ''0'' \<longleftrightarrow> n = 0"
proof -
  assume "n < 10"
  then have "n \<in> {0, 1, 2, 3, 4, 5, 6, 7, 8, 9}" by auto
  then show ?thesis by (auto simp: digit_char_def)
qed

lemma dec_str_not_Nil: "dec_str n \<noteq> []"
  by (subst dec_str.simps) simp

lemma dec_str_unpadded: "0 < n \<Longrightarrow> hd (dec_str n) \<noteq> CHR ''0''"
proof (induction n rule: dec_str.induct)
  case (1 n)
  show ?case
  proof (cases "n < 10")
    case True
    then show ?thesis using "1.prems"
      by (subst dec_str.simps) (simp add: digit_char_zero_iff)
  next
    case False
    then have "0 < n div 10" by simp
    with "1.IH" False have "hd (dec_str (n div 10)) \<noteq> CHR ''0''" by simp
    then show ?thesis using False
      by (subst dec_str.simps) (simp add: dec_str_not_Nil)
  qed
qed









section \<open>Lemmas about the grouping loop\<close>

lemma py_join_snoc: "xs \<noteq> [] \<Longrightarrow> py_join sep (xs @ [x]) = py_join sep xs @ sep @ x"
  by (induction sep xs rule: py_join.induct) auto

lemma turn_of_single: "turn_of [x] = new_group x"
  by (simp add: turn_of_def new_group_def)

lemma turn_of_snoc:
  "cur \<noteq> [] \<Longrightarrow>
     turn_of (cur @ [x]) =
       (turn_of cur)\<lparr>m_end := m_end x, m_text := m_text (turn_of cur) @ '' '' @ m_text x\<rparr>"
  by (simp add: turn_of_def py_join_snoc)

lemma speaker_turn_of: "m_speaker (turn_of cur) = m_speaker (hd cur)"
  by (simp add: turn_of_def)

lemma group_loop_runs_from:
  "cur \<noteq> [] \<Longrightarrow>
     (case group_loop segs grouped (Some (turn_of cur)) of
        (g, None) \<Rightarrow> g | (g, Some c) \<Rightarrow> g @ [c])
     = grouped @ map turn_of (runs_from cur segs)"
proof (induction segs arbitrary: cur grouped)
  case Nil
  then show ?case by simp
next
  case (Cons x segs)
  show ?case
  proof (cases "m_speaker x = m_speaker (hd cur)")
    case True
    then show ?thesis
      using Cons.IH [of "cur @ [x]" grouped] Cons.prems
      by (simp add: speaker_turn_of turn_of_snoc)
  next
    case False
    then show ?thesis
      using Cons.IH [of "[x]" "grouped @ [turn_of cur]"]
      by (simp add: speaker_turn_of turn_of_single)
  qed
qed

lemma grouped_of_runs: "grouped_of segs = map turn_of (runs segs)"
proof (cases segs)
  case Nil
  then show ?thesis by (simp add: grouped_of_def)
next
  case (Cons x xs)
  then show ?thesis
    using group_loop_runs_from [of "[x]" xs "[]"]
    by (simp add: grouped_of_def turn_of_single)
qed

lemma concat_runs_from: "concat (runs_from cur xs) = cur @ xs"
  by (induction xs arbitrary: cur) auto

lemma concat_runs: "concat (runs segs) = segs"
  by (cases segs) (simp_all add: concat_runs_from)

lemma runs_from_nonempty: "cur \<noteq> [] \<Longrightarrow> [] \<notin> set (runs_from cur xs)"
  by (induction xs arbitrary: cur) auto

lemma runs_nonempty: "[] \<notin> set (runs segs)"
  by (cases segs) (simp_all add: runs_from_nonempty)

lemma same_speaker_snoc:
  assumes "cur \<noteq> []" and "same_speaker cur" and "m_speaker x = m_speaker (hd cur)"
  shows "same_speaker (cur @ [x])"
proof -
  have h: "hd (cur @ [x]) = hd cur" using assms(1) by simp
  have s: "set (cur @ [x]) = insert x (set cur)" by simp
  show ?thesis
    using assms(2,3) unfolding same_speaker_def h s by blast
qed

lemma runs_from_same_speaker:
  "cur \<noteq> [] \<Longrightarrow> same_speaker cur \<Longrightarrow> \<forall>r \<in> set (runs_from cur xs). same_speaker r"
proof (induction xs arbitrary: cur)
  case Nil
  then show ?case by simp
next
  case (Cons x xs)
  have s: "same_speaker [x]" by (simp add: same_speaker_def)
  show ?case
  proof (cases "m_speaker x = m_speaker (hd cur)")
    case True
    have "same_speaker (cur @ [x])"
      by (rule same_speaker_snoc [OF Cons.prems True])
    from Cons.IH [OF _ this] have "\<forall>r \<in> set (runs_from (cur @ [x]) xs). same_speaker r"
      by simp
    then show ?thesis by (simp add: True)
  next
    case False
    from Cons.IH [OF _ s] have "\<forall>r \<in> set (runs_from [x] xs). same_speaker r"
      by simp
    then show ?thesis using Cons.prems(2) by (simp add: False)
  qed
qed

lemma runs_same_speaker: "\<forall>r \<in> set (runs segs). same_speaker r"
proof (cases segs)
  case Nil
  then show ?thesis by simp
next
  case (Cons x xs)
  have "same_speaker [x]" by (simp add: same_speaker_def)
  then show ?thesis using Cons runs_from_same_speaker [of "[x]" xs] by simp
qed

lemma runs_from_hd: "cur \<noteq> [] \<Longrightarrow> runs_from cur xs \<noteq> [] \<and> hd (hd (runs_from cur xs)) = hd cur"
  by (induction xs arbitrary: cur) auto

lemma last_same_speaker:
  "cur \<noteq> [] \<Longrightarrow> same_speaker cur \<Longrightarrow> m_speaker (last cur) = m_speaker (hd cur)"
  using last_in_set unfolding same_speaker_def by blast

lemma runs_from_adjacent:
  "cur \<noteq> [] \<Longrightarrow> same_speaker cur \<Longrightarrow> adjacent_differ (runs_from cur xs)"
proof (induction xs arbitrary: cur)
  case Nil
  then show ?case by simp
next
  case (Cons x xs)
  show ?case
  proof (cases "m_speaker x = m_speaker (hd cur)")
    case True
    then show ?thesis using Cons by (simp add: same_speaker_snoc)
  next
    case False
    have s: "same_speaker [x]" by (simp add: same_speaker_def)
    from runs_from_hd [of "[x]" xs] obtain r rs where
      r: "runs_from [x] xs = r # rs" "hd r = x"
      by (cases "runs_from [x] xs") auto
    have "adjacent_differ (r # rs)" using Cons.IH [of "[x]"] s r by simp
    then show ?thesis
      using False r last_same_speaker [OF Cons.prems] by simp
  qed
qed

lemma runs_adjacent: "adjacent_differ (runs segs)"
proof (cases segs)
  case Nil
  then show ?thesis by simp
next
  case (Cons x xs)
  have "same_speaker [x]" by (simp add: same_speaker_def)
  then show ?thesis using Cons runs_from_adjacent [of "[x]" xs] by simp
qed

lemma adjacent_differ_nth:
  "adjacent_differ rs \<Longrightarrow> Suc i < length rs \<Longrightarrow>
     m_speaker (last (rs ! i)) \<noteq> m_speaker (hd (rs ! Suc i))"
proof (induction rs arbitrary: i rule: adjacent_differ.induct)
  case (1 r r' rs)
  then show ?case by (cases i) auto
qed simp_all

lemma sorted_heads:
  fixes f :: "'a \<Rightarrow> real"
  shows "[] \<notin> set rs \<Longrightarrow> sorted (map f (concat rs)) \<Longrightarrow> sorted (map (\<lambda>r. f (hd r)) rs)"
proof (induction rs)
  case Nil
  then show ?case by simp
next
  case (Cons r rs)
  have "f (hd r) \<le> f (hd r')" if "r' \<in> set rs" for r'
  proof -
    have "r' \<noteq> []" using Cons.prems(1) that by auto
    then have "hd r' \<in> set r'" by simp
    then have "hd r' \<in> set (concat rs)" using that by auto
    moreover have "hd r \<in> set r" using Cons.prems(1) by auto
    ultimately have "hd r \<in> set r" "hd r' \<in> set (concat rs)" by simp_all
    then show ?thesis using Cons.prems(2) by (auto simp: sorted_append)
  qed
  then show ?case using Cons by (auto simp: sorted_append)
qed

lemma start_turn_of: "m_start (turn_of r) = m_start (hd r)"
  by (simp add: turn_of_def)

lemma sorted_grouped:
  assumes "sorted (map m_start segs)"
  shows "sorted (map m_start (grouped_of segs))"
proof -
  have "sorted (map (\<lambda>r. m_start (hd r)) (runs segs))"
    using assms by (intro sorted_heads) (simp_all add: runs_nonempty concat_runs)
  then show ?thesis
    by (simp add: grouped_of_runs o_def start_turn_of)
qed


section \<open>Lemmas about strip and the merge loop\<close>

lemma strip_decomp:
  "\<exists>l r. s = l @ strip s @ r \<and> (\<forall>c \<in> set l. is_space c) \<and> (\<forall>c \<in> set r. is_space c)
     \<and> (strip s \<noteq> [] \<longrightarrow> \<not> is_space (hd (strip s)) \<and> \<not> is_space (last (strip s)))"
proof -
  define t where "t = dropWhile is_space s"
  define l where "l = takeWhile is_space s"
  define r where "r = rev (takeWhile is_space (rev t))"
  have st: "strip s = rev (dropWhile is_space (rev t))"
    by (simp add: strip_def t_def)
  have "rev (takeWhile is_space (rev t) @ dropWhile is_space (rev t)) = rev (rev t)"
    by (simp only: takeWhile_dropWhile_id)
  then have "rev (dropWhile is_space (rev t)) @ rev (takeWhile is_space (rev t)) = t"
    by (simp only: rev_append rev_rev_ident)
  then have t: "t = strip s @ r"
    unfolding st r_def by (rule sym)
  have s: "s = l @ strip s @ r"
    using t takeWhile_dropWhile_id [of is_space s] unfolding l_def t_def by metis
  have sl: "\<forall>c \<in> set l. is_space c" unfolding l_def by (auto dest: set_takeWhileD)
  have sr: "\<forall>c \<in> set r. is_space c" unfolding r_def by (auto dest: set_takeWhileD)
  have e: "\<not> is_space (hd (strip s)) \<and> \<not> is_space (last (strip s))" if ne: "strip s \<noteq> []"
  proof -
    have "dropWhile is_space (rev t) \<noteq> []" using ne st by simp
    then have "\<not> is_space (hd (dropWhile is_space (rev t)))" by (rule hd_dropWhile)
    then have a: "\<not> is_space (last (strip s))"
      using ne by (simp add: st last_rev)
    have "t \<noteq> []" using t ne by auto
    then have "\<not> is_space (hd t)" unfolding t_def by (rule hd_dropWhile)
    moreover have "hd t = hd (strip s)" using t ne by (metis hd_append2)
    ultimately show ?thesis using a by simp
  qed
  show ?thesis using s sl sr e by blast
qed

lemma merge_loop_spec:
  "\<exists>out. merge_loop segs ds merged = Inr (merged @ out) \<and> length out = length segs
     \<and> (\<forall>i < length segs.
           m_start (out ! i) = w_start (segs ! i) \<and> m_end (out ! i) = w_end (segs ! i)
         \<and> m_text (out ! i) = strip (w_text (segs ! i))
         \<and> get_speaker_at_time ds (w_start (segs ! i)) (w_end (segs ! i)) = Inr (m_speaker (out ! i)))"
proof (induction segs arbitrary: merged)
  case Nil
  show ?case by simp
next
  case (Cons seg segs)
  from resolver_returns obtain l where l: "get_speaker_at_time ds (w_start seg) (w_end seg) = Inr l"
    by blast
  define a where "a = \<lparr>m_speaker = l, m_start = w_start seg, m_end = w_end seg,
     m_text = strip (w_text seg)\<rparr>"
  from Cons.IH [of "merged @ [a]"] obtain out where
    m: "merge_loop segs ds (merged @ [a]) = Inr ((merged @ [a]) @ out)"
    and len: "length out = length segs"
    and each: "\<forall>i < length segs.
           m_start (out ! i) = w_start (segs ! i) \<and> m_end (out ! i) = w_end (segs ! i)
         \<and> m_text (out ! i) = strip (w_text (segs ! i))
         \<and> get_speaker_at_time ds (w_start (segs ! i)) (w_end (segs ! i)) = Inr (m_speaker (out ! i))"
    by blast
  have r: "merge_loop (seg # segs) ds merged = Inr (merged @ (a # out))"
    using l m by (simp add: a_def)
  have "\<forall>i < length (seg # segs).
           m_start ((a # out) ! i) = w_start ((seg # segs) ! i)
         \<and> m_end ((a # out) ! i) = w_end ((seg # segs) ! i)
         \<and> m_text ((a # out) ! i) = strip (w_text ((seg # segs) ! i))
         \<and> get_speaker_at_time ds (w_start ((seg # segs) ! i)) (w_end ((seg # segs) ! i))
              = Inr (m_speaker ((a # out) ! i))"
  proof (intro allI impI)
    fix i assume "i < length (seg # segs)"
    then show "m_start ((a # out) ! i) = w_start ((seg # segs) ! i)
         \<and> m_end ((a # out) ! i) = w_end ((seg # segs) ! i)
         \<and> m_text ((a # out) ! i) = strip (w_text ((seg # segs) ! i))
         \<and> get_speaker_at_time ds (w_start ((seg # segs) ! i)) (w_end ((seg # segs) ! i))
              = Inr (m_speaker ((a # out) ! i))"
      using each l by (cases i) (simp_all add: a_def)
  qed
  then show ?case using r len by (intro exI [of _ "a # out"]) simp
qed

section \<open>The speaker resolver\<close>

text \<open>
  Claim C3. With an empty diarization sequence the resolver returns the fixed default
  label "SPEAKER_00", whatever the query window is.
\<close>

theorem get_speaker_at_time_empty:
  "get_speaker_at_time [] start end = Inr ''SPEAKER_00''"
  by (simp add: get_speaker_at_time_def)









text \<open>
  Claim C9. The label the resolver returns is "SPEAKER_00" or the speaker of one of the
  given segments.
\<close>

theorem get_speaker_at_time_label_from_input:
  "\<exists>l. get_speaker_at_time segs start end = Inr l
     \<and> (l = ''SPEAKER_00'' \<or> l \<in> d_speaker ` set segs)"
  using resolver_returns [of segs start "end"] resolver_label_origin [of segs start "end"]
  by blast

section \<open>Turn aggregation\<close>

text \<open>
  Claim C4. The grouping loop of \<open>format_transcription_diarized\<close> cuts the sequence of
  segments into consecutive runs \<open>rs\<close>: the runs concatenated give the sequence back,
  no run is empty, all segments of a run have one speaker, and neighbouring runs have
  different speakers, so the runs are maximal. The groups it builds are the turns of
  these runs, in order: speaker and start of the first segment, end of the last
  segment, texts joined by single spaces. The segments (0,2,hi,A), (2,4,there,A),
  (4,6,bye,B) give exactly the turns (A,0,4,hi there) and (B,4,6,bye).
\<close>

theorem grouped_of_maximal_runs:
  "(\<exists>rs. concat rs = segs
      \<and> (\<forall>r \<in> set rs. r \<noteq> [] \<and> (\<forall>x \<in> set r. m_speaker x = m_speaker (hd r)))
      \<and> (\<forall>i. Suc i < length rs \<longrightarrow> m_speaker (last (rs ! i)) \<noteq> m_speaker (hd (rs ! Suc i)))
      \<and> grouped_of segs = map turn_of rs)
   \<and> grouped_of turn_example =
       [\<lparr>m_speaker = ''A'', m_start = 0, m_end = 4, m_text = ''hi there''\<rparr>,
        \<lparr>m_speaker = ''B'', m_start = 4, m_end = 6, m_text = ''bye''\<rparr>]"
proof -
  have a: "\<forall>r \<in> set (runs segs). r \<noteq> [] \<and> (\<forall>x \<in> set r. m_speaker x = m_speaker (hd r))"
    using runs_nonempty [of segs] runs_same_speaker [of segs]
    unfolding same_speaker_def by blast
  have b: "\<forall>i. Suc i < length (runs segs) \<longrightarrow>
      m_speaker (last (runs segs ! i)) \<noteq> m_speaker (hd (runs segs ! Suc i))"
    using adjacent_differ_nth [OF runs_adjacent] by blast
  have c: "grouped_of turn_example =
       [\<lparr>m_speaker = ''A'', m_start = 0, m_end = 4, m_text = ''hi there''\<rparr>,
        \<lparr>m_speaker = ''B'', m_start = 4, m_end = 6, m_text = ''bye''\<rparr>]"
    by (simp add: grouped_of_def turn_example_def new_group_def)
  show ?thesis
    using concat_runs [of segs] a b grouped_of_runs [of segs] c by blast
qed

theorem grouped_of_maximal_runs_witness:
  "\<exists>rs. concat rs = turn_example
      \<and> (\<forall>r \<in> set rs. r \<noteq> [] \<and> (\<forall>x \<in> set r. m_speaker x = m_speaker (hd r)))
      \<and> (\<forall>i. Suc i < length rs \<longrightarrow> m_speaker (last (rs ! i)) \<noteq> m_speaker (hd (rs ! Suc i)))
      \<and> grouped_of turn_example = map turn_of rs"
  using grouped_of_maximal_runs [of turn_example] by blast

text \<open>
  Claim C5. For segments in ascending order of start, the groups come out in
  non-decreasing order of start. Every segment is in exactly one group: the groups are
  the turns of non-empty consecutive runs whose concatenation is the input, one group
  per run, so the lengths of the runs add up to the number of segments. An empty input
  gives no group, and the formatted transcript is then the empty string.
\<close>

theorem grouped_of_sorted_coverage:
  assumes "sorted (map m_start segs)"
  shows "sorted (map m_start (grouped_of segs))
    \<and> (\<exists>rs. concat rs = segs \<and> [] \<notin> set rs \<and> sum_list (map length rs) = length segs
           \<and> length (grouped_of segs) = length rs \<and> grouped_of segs = map turn_of rs)
    \<and> grouped_of [] = [] \<and> format_transcription_diarized [] = []"
proof -
  have "sum_list (map length (runs segs)) = length (concat (runs segs))"
    by (simp add: length_concat)
  then have n: "sum_list (map length (runs segs)) = length segs"
    by (simp add: concat_runs)
  have l: "length (grouped_of segs) = length (runs segs)"
    by (simp add: grouped_of_runs)
  have e: "grouped_of [] = []" "format_transcription_diarized [] = []"
    by (simp_all add: grouped_of_def format_transcription_diarized_def)
  show ?thesis
    using sorted_grouped [OF assms] concat_runs [of segs] runs_nonempty [of segs] n l
      grouped_of_runs [of segs] e by blast
qed

theorem grouped_of_sorted_coverage_witness:
  "sorted (map m_start turn_example)
    \<and> sorted (map m_start (grouped_of turn_example))
    \<and> (\<exists>rs. concat rs = turn_example \<and> [] \<notin> set rs
           \<and> sum_list (map length rs) = length turn_example
           \<and> length (grouped_of turn_example) = length rs
           \<and> grouped_of turn_example = map turn_of rs)"
proof -
  have h: "sorted (map m_start turn_example)"
    by (simp add: turn_example_def)
  from grouped_of_sorted_coverage [OF h] h show ?thesis by blast
qed

section \<open>Timestamps\<close>



section \<open>Merging\<close>

text \<open>
  Claim C10. Merging returns one merged segment for each Whisper segment, in the same
  order. Start and end are copied; the text is the text of the Whisper segment
  stripped, that is, the Whisper text is whitespace, then the merged text, then
  whitespace, and a merged text that is not empty neither begins nor ends with
  whitespace; the speaker is the label the resolver returns for the window of the
  segment.
\<close>

theorem merge_one_per_segment:
  "\<exists>merged.
     merge_transcription_with_diarization whisper_result diarization_segments = Inr merged
     \<and> length merged = length (get_segments whisper_result)
     \<and> (\<forall>i < length merged.
           m_start (merged ! i) = w_start (get_segments whisper_result ! i)
         \<and> m_end (merged ! i) = w_end (get_segments whisper_result ! i)
         \<and> m_text (merged ! i) = strip (w_text (get_segments whisper_result ! i))
         \<and> (\<exists>l r. w_text (get_segments whisper_result ! i) = l @ m_text (merged ! i) @ r
                \<and> (\<forall>c \<in> set l. is_space c) \<and> (\<forall>c \<in> set r. is_space c))
         \<and> (m_text (merged ! i) \<noteq> [] \<longrightarrow>
                \<not> is_space (hd (m_text (merged ! i))) \<and> \<not> is_space (last (m_text (merged ! i))))
         \<and> get_speaker_at_time diarization_segments
               (w_start (get_segments whisper_result ! i)) (w_end (get_segments whisper_result ! i))
             = Inr (m_speaker (merged ! i)))"
proof -
  define segs where "segs = get_segments whisper_result"
  from merge_loop_spec [of segs diarization_segments "[]"] obtain out where
    m: "merge_loop segs diarization_segments [] = Inr out"
    and len: "length out = length segs"
    and each: "\<forall>i < length segs.
           m_start (out ! i) = w_start (segs ! i) \<and> m_end (out ! i) = w_end (segs ! i)
         \<and> m_text (out ! i) = strip (w_text (segs ! i))
         \<and> get_speaker_at_time diarization_segments (w_start (segs ! i)) (w_end (segs ! i))
              = Inr (m_speaker (out ! i))"
    by auto
  have "m_start (out ! i) = w_start (segs ! i)
         \<and> m_end (out ! i) = w_end (segs ! i)
         \<and> m_text (out ! i) = strip (w_text (segs ! i))
         \<and> (\<exists>l r. w_text (segs ! i) = l @ m_text (out ! i) @ r
                \<and> (\<forall>c \<in> set l. is_space c) \<and> (\<forall>c \<in> set r. is_space c))
         \<and> (m_text (out ! i) \<noteq> [] \<longrightarrow>
                \<not> is_space (hd (m_text (out ! i))) \<and> \<not> is_space (last (m_text (out ! i))))
         \<and> get_speaker_at_time diarization_segments (w_start (segs ! i)) (w_end (segs ! i))
             = Inr (m_speaker (out ! i))" if "i < length out" for i
  proof -
    from that len each have e: "m_start (out ! i) = w_start (segs ! i)"
      "m_end (out ! i) = w_end (segs ! i)"
      "m_text (out ! i) = strip (w_text (segs ! i))"
      "get_speaker_at_time diarization_segments (w_start (segs ! i)) (w_end (segs ! i))
              = Inr (m_speaker (out ! i))"
      by simp_all
    from strip_decomp [of "w_text (segs ! i)"] show ?thesis
      unfolding e(3) [symmetric] using e(1,2,4) by blast
  qed
  then show ?thesis
    using m len unfolding merge_transcription_with_diarization_def segs_def [symmetric]
    by blast
qed

theorem merge_one_per_segment_witness:
  "merge_transcription_with_diarization whisper_example overlap_example =
     Inr [\<lparr>m_speaker = ''A'', m_start = 3, m_end = 7, m_text = ''Hello there.''\<rparr>,
          \<lparr>m_speaker = ''B'', m_start = 7, m_end = 8, m_text = ''Bye.''\<rparr>]"
  using merge_one_per_segment [of whisper_example overlap_example]
  by (simp add: merge_transcription_with_diarization_def get_segments_def whisper_example_def
      overlap_example_def get_speaker_at_time_def overlap_duration_def strip_def is_space_def)

section \<open>The written file\<close>

text \<open>
  Claim C6 does not hold of the program. Both runs below have \<open>--diarize\<close> on. In the
  first the diarization returns no segment, so \<open>if diarization_segments:\<close> in \<open>main\<close>
  takes the branch without merging; in the second Whisper returns no segment, the merged
  list is empty, and \<open>if diarized_segments:\<close> in \<open>save_outputs\<close> takes the plain branch.
  Each run writes \<open>meeting_transcription.txt\<close> in plain mode, without a speaker count.
\<close>

theorem main_diarize_saves_plain_file:
  "a_diarize diarize_args
   \<and> main diarize_args no_speaker_world =
       Saved \<lparr>f_dir = ''recordings'', f_name = ''meeting_transcription.txt'',
              f_content = ''TRANSCRIPTION'' @ [newline, newline]
                @ ''Audio File: meeting.mp3'' @ [newline]
                @ ''Date: 2025-01-01 12:00:00'' @ [newline]
                @ [newline] @ ''---'' @ [newline, newline]
                @ ''Hello there.'' @ [newline, newline] @ ''Bye.''\<rparr>
   \<and> main diarize_args no_speech_world =
       Saved \<lparr>f_dir = ''recordings'', f_name = ''meeting_transcription.txt'',
              f_content = ''TRANSCRIPTION'' @ [newline, newline]
                @ ''Audio File: meeting.mp3'' @ [newline]
                @ ''Date: 2025-01-01 12:00:00'' @ [newline]
                @ [newline] @ ''---'' @ [newline, newline]\<rparr>"
  by (simp add: main_def diarize_args_def no_speaker_world_def no_speech_world_def
      lower_char_def SUPPORTED_FORMATS_def save_outputs_def strip_def is_space_def
      is_sentence_end_def is_sentence_start_def overlap_example_def
      merge_transcription_with_diarization_def get_segments_def)

end
